theory Spec2Isabelle
  imports Main
begin

section \<open>The fake Docker Compose client: data model\<close>

text \<open>
  A shallow embedding of \<^verbatim>\<open>internal/dockercompose/fake_client.go\<close>.
  Go strings are byte sequences, so they are \<^typ>\<open>string\<close> here (one \<^typ>\<open>char\<close> per byte).
  The types \<^verbatim>\<open>model.DockerComposeUpSpec\<close> and \<^verbatim>\<open>model.DockerComposeProject\<close> are declared
  in another package; the client only stores and passes their values on, so they are the
  type parameters \<open>'spec\<close> and \<open>'proj\<close>.
\<close>

text \<open>A Go \<^verbatim>\<open>error\<close> value; \<^verbatim>\<open>nil\<close> is \<open>None\<close> of \<open>error option\<close>.\<close>

datatype error = Error string

text \<open>
  A buffered channel of strings: its capacity and the values queued in it, oldest first.
\<close>

record chan =
  cap :: nat
  buf :: "string list"

record 'spec UpCall =
  Spec :: 'spec
  ShouldBuild :: bool

record 'proj DownCall =
  Proj :: 'proj

record 'spec RmCall =
  Specs :: "'spec list"

text \<open>
  The struct \<^verbatim>\<open>FakeDCClient\<close>, without its test handle \<^verbatim>\<open>t\<close> and its context \<^verbatim>\<open>ctx\<close>.
  A receive-only channel of \<^verbatim>\<open>RunLogOutput\<close> is represented by the results its receives
  yield, in order: \<open>Some s\<close> for a value \<open>s\<close>, \<open>None\<close> for the receive on the closed channel.
  A service without an entry reads the \<^verbatim>\<open>nil\<close> channel, which never yields anything.
\<close>

record ('spec, 'proj) FakeDCClient =
  RunLogOutput :: "string \<rightharpoonup> string option list"
  ContainerIdOutput :: string
  eventJson :: chan
  ConfigOutput :: string
  VersionOutput :: string
  UpCalls :: "'spec UpCall list"
  DownCalls :: "'proj DownCall list"
  RmCalls :: "'spec RmCall list"
  DownError :: "error option"
  RmError :: "error option"
  WorkDir :: string

definition NewFakeDockerComposeClient :: "('spec, 'proj) FakeDCClient" where
  "NewFakeDockerComposeClient =
     \<lparr> RunLogOutput = Map.empty, ContainerIdOutput = [],
       eventJson = \<lparr> cap = 100, buf = [] \<rparr>,
       ConfigOutput = [], VersionOutput = [],
       UpCalls = [], DownCalls = [], RmCalls = [],
       DownError = None, RmError = None, WorkDir = [] \<rparr>"

section \<open>Lifecycle operations\<close>

text \<open>
  Each operation returns its error result and the updated client. The context and the
  two writers that the Go methods also take are never used by them.
\<close>

definition Up :: "'spec \<Rightarrow> bool \<Rightarrow> ('spec, 'proj) FakeDCClient
    \<Rightarrow> error option \<times> ('spec, 'proj) FakeDCClient" where
  "Up spec shouldBuild c =
     (None, c\<lparr>UpCalls := UpCalls c @ [\<lparr>Spec = spec, ShouldBuild = shouldBuild\<rparr>]\<rparr>)"

definition Down :: "'proj \<Rightarrow> ('spec, 'proj) FakeDCClient
    \<Rightarrow> error option \<times> ('spec, 'proj) FakeDCClient" where
  "Down proj c =
     (let c1 = c\<lparr>DownCalls := DownCalls c @ [\<lparr>Proj = proj\<rparr>]\<rparr>
      in case DownError c1 of
           Some err \<Rightarrow> (Some err, c1\<lparr>DownError := Some err\<rparr>)
         | None \<Rightarrow> (None, c1))"

definition Rm :: "'spec list \<Rightarrow> ('spec, 'proj) FakeDCClient
    \<Rightarrow> error option \<times> ('spec, 'proj) FakeDCClient" where
  "Rm specs c =
     (let c1 = c\<lparr>RmCalls := RmCalls c @ [\<lparr>Specs = specs\<rparr>]\<rparr>
      in case RmError c1 of
           Some err \<Rightarrow> (Some err, c1\<lparr>RmError := Some err\<rparr>)
         | None \<Rightarrow> (None, c1))"

definition Config :: "('spec, 'proj) FakeDCClient \<Rightarrow> string \<times> error option" where
  "Config c = (ConfigOutput c, None)"

definition ContainerID :: "'spec \<Rightarrow> ('spec, 'proj) FakeDCClient \<Rightarrow> string \<times> error option" where
  "ContainerID spec c = (ContainerIdOutput c, None)"

definition Version :: "('spec, 'proj) FakeDCClient \<Rightarrow> string \<times> string \<times> error option" where
  "Version c =
     (if VersionOutput c \<noteq> [] then (VersionOutput c, ''tilt-fake'', None)
      else (''v1.29.2'', ''tilt-fake'', None))"

subsection \<open>Sequences of lifecycle calls\<close>

datatype ('spec, 'proj) call =
  CallUp 'spec bool
| CallDown 'proj
| CallRm "'spec list"

fun do_call :: "('spec, 'proj) call \<Rightarrow> ('spec, 'proj) FakeDCClient
    \<Rightarrow> error option \<times> ('spec, 'proj) FakeDCClient" where
  "do_call (CallUp spec b) c = Up spec b c"
| "do_call (CallDown proj) c = Down proj c"
| "do_call (CallRm specs) c = Rm specs c"

text \<open>
  The calls are made one after the other on the same client; the result lists what each
  call returned, in call order, and the client after the last call.
\<close>

fun run_calls :: "('spec, 'proj) call list \<Rightarrow> ('spec, 'proj) FakeDCClient
    \<Rightarrow> error option list \<times> ('spec, 'proj) FakeDCClient" where
  "run_calls [] c = ([], c)"
| "run_calls (x # xs) c =
     (let (r, c1) = do_call x c; (rs, c2) = run_calls xs c1 in (r # rs, c2))"

text \<open>The records that a sequence of calls is expected to leave in each history.\<close>

fun up_records :: "('spec, 'proj) call list \<Rightarrow> 'spec UpCall list" where
  "up_records [] = []"
| "up_records (CallUp spec b # xs) = \<lparr>Spec = spec, ShouldBuild = b\<rparr> # up_records xs"
| "up_records (_ # xs) = up_records xs"

fun down_records :: "('spec, 'proj) call list \<Rightarrow> 'proj DownCall list" where
  "down_records [] = []"
| "down_records (CallDown proj # xs) = \<lparr>Proj = proj\<rparr> # down_records xs"
| "down_records (_ # xs) = down_records xs"

fun rm_records :: "('spec, 'proj) call list \<Rightarrow> 'spec RmCall list" where
  "rm_records [] = []"
| "rm_records (CallRm specs # xs) = \<lparr>Specs = specs\<rparr> # rm_records xs"
| "rm_records (_ # xs) = rm_records xs"

text \<open>What a call returns on a client whose injected faults are \<open>d\<close> (Down) and \<open>r\<close> (Rm).\<close>

fun expected_result :: "error option \<Rightarrow> error option \<Rightarrow> ('spec, 'proj) call \<Rightarrow> error option" where
  "expected_result d r (CallUp _ _) = None"
| "expected_result d r (CallDown _) = d"
| "expected_result d r (CallRm _) = r"

section \<open>Project naming\<close>

text \<open>
  \<^verbatim>\<open>Project\<close> hands the compose loader an option that sets the project name from
  \<^verbatim>\<open>WorkDir\<close>. The loader itself is outside this file; what is modelled is the name the
  option computes. The Go library functions it calls are modelled on bytes, from their
  documented behaviour.
\<close>

definition between :: "char \<Rightarrow> char \<Rightarrow> char \<Rightarrow> bool" where
  "between lo hi c \<longleftrightarrow> (of_char lo :: nat) \<le> of_char c \<and> (of_char c :: nat) \<le> of_char hi"

text \<open>
  \<^verbatim>\<open>filepath.Base\<close> with the separator \<^verbatim>\<open>/\<close>: trailing separators are removed, then the
  last element is taken; the empty path gives \<^verbatim>\<open>.\<close> and a path of separators only gives
  \<^verbatim>\<open>/\<close>.
\<close>

definition Base :: "string \<Rightarrow> string" where
  "Base path =
     (if path = [] then ''.''
      else let p = rev (dropWhile (\<lambda>c. c = CHR ''/'') (rev path));
               e = rev (takeWhile (\<lambda>c. c \<noteq> CHR ''/'') (rev p))
           in if e = [] then ''/'' else e)"

definition lower_ascii :: "char \<Rightarrow> char" where
  "lower_ascii c = (if between CHR ''A'' CHR ''Z'' c then char_of (of_char c + 32 :: nat) else c)"

text \<open>
  \<^verbatim>\<open>strings.ToLower\<close> maps every rune of the UTF-8 text with \<^verbatim>\<open>unicode.ToLower\<close>. On ASCII
  bytes that is \<^const>\<open>lower_ascii\<close>. Two runes beyond ASCII have an ASCII lower case:
  U+0130 (bytes C4 B0) becomes \<^verbatim>\<open>i\<close> and U+212A (bytes E2 84 AA) becomes \<^verbatim>\<open>k\<close>. Every
  other rune beyond ASCII, and every byte that is not valid UTF-8, is mapped by Go to
  bytes that are again \<open>0x80\<close> or above; such bytes are left as they are here, their
  exact lower case is not modelled.
\<close>

fun ToLower :: "string \<Rightarrow> string" where
  "ToLower [] = []"
| "ToLower (c # cs) =
     (if c = CHR 0xC4 \<and> take 1 cs = [CHR 0xB0] then CHR ''i'' # ToLower (drop 1 cs)
      else if c = CHR 0xE2 \<and> take 2 cs = [CHR 0x84, CHR 0xAA] then CHR ''k'' # ToLower (drop 2 cs)
      else lower_ascii c # ToLower cs)"

text \<open>The character class \<^verbatim>\<open>[a-z0-9_-]\<close> of the regular expression.\<close>

definition class_char :: "char \<Rightarrow> bool" where
  "class_char c \<longleftrightarrow> between CHR ''a'' CHR ''z'' c \<or> between CHR ''0'' CHR ''9'' c
      \<or> c = CHR ''_'' \<or> c = CHR ''-''"

text \<open>
  \<^verbatim>\<open>r.FindAllString(name, -1)\<close> for that expression: every match is one character, and
  the matches are returned from left to right.
\<close>

fun FindAllString :: "string \<Rightarrow> string list" where
  "FindAllString [] = []"
| "FindAllString (c # cs) = (if class_char c then [c] # FindAllString cs else FindAllString cs)"

fun Join :: "string list \<Rightarrow> string \<Rightarrow> string" where
  "Join [] sep = []"
| "Join [e] sep = e"
| "Join (e # es) sep = e @ sep @ Join es sep"

fun TrimLeft :: "string \<Rightarrow> string \<Rightarrow> string" where
  "TrimLeft [] cutset = []"
| "TrimLeft (c # cs) cutset = (if c \<in> set cutset then TrimLeft cs cutset else c # cs)"

text \<open>The three normalization statements of \<^verbatim>\<open>projectNameOpt\<close>, applied to a name.\<close>

definition normalize_name :: "string \<Rightarrow> string" where
  "normalize_name name = TrimLeft (Join (FindAllString (ToLower name)) []) ''_-''"

definition projectNameOpt :: "string \<Rightarrow> string" where
  "projectNameOpt workDir =
     (if workDir \<noteq> [] then normalize_name (Base workDir) else ''fakedc'')"

definition is_separator :: "char \<Rightarrow> bool" where
  "is_separator c \<longleftrightarrow> c = CHR ''_'' \<or> c = CHR ''-''"

section \<open>Log streaming\<close>

text \<open>
  The UTF-8 encodings of the runes for which \<^verbatim>\<open>unicode.IsSpace\<close> holds: tab, line feed,
  vertical tab, form feed, carriage return, space, U+0085, U+00A0, U+1680, U+2000 to
  U+200A, U+2028, U+2029, U+202F, U+205F and U+3000.
\<close>

definition space_runes :: "string list" where
  "space_runes =
     [[CHR 0x09], [CHR 0x0A], [CHR 0x0B], [CHR 0x0C], [CHR 0x0D], [CHR 0x20],
      [CHR 0xC2, CHR 0x85], [CHR 0xC2, CHR 0xA0],
      [CHR 0xE1, CHR 0x9A, CHR 0x80],
      [CHR 0xE2, CHR 0x80, CHR 0x80], [CHR 0xE2, CHR 0x80, CHR 0x81],
      [CHR 0xE2, CHR 0x80, CHR 0x82], [CHR 0xE2, CHR 0x80, CHR 0x83],
      [CHR 0xE2, CHR 0x80, CHR 0x84], [CHR 0xE2, CHR 0x80, CHR 0x85],
      [CHR 0xE2, CHR 0x80, CHR 0x86], [CHR 0xE2, CHR 0x80, CHR 0x87],
      [CHR 0xE2, CHR 0x80, CHR 0x88], [CHR 0xE2, CHR 0x80, CHR 0x89],
      [CHR 0xE2, CHR 0x80, CHR 0x8A],
      [CHR 0xE2, CHR 0x80, CHR 0xA8], [CHR 0xE2, CHR 0x80, CHR 0xA9],
      [CHR 0xE2, CHR 0x80, CHR 0xAF],
      [CHR 0xE2, CHR 0x81, CHR 0x9F],
      [CHR 0xE3, CHR 0x80, CHR 0x80]]"

text \<open>
  \<^verbatim>\<open>strings.TrimRightFunc(s, unicode.IsSpace)\<close> scans the text from its end, one rune at
  a time, and stops at the first rune that is not white space. The scan is written on
  the reversed text: the last rune is white space when the last byte, the last two
  bytes or the last three bytes are one of the encodings above.
\<close>

fun drop_space_runes :: "string \<Rightarrow> string" where
  "drop_space_runes [] = []"
| "drop_space_runes (b # r) =
     (if [b] \<in> set space_runes then drop_space_runes r
      else if rev (b # take 1 r) \<in> set space_runes then drop_space_runes (drop 1 r)
      else if rev (b # take 2 r) \<in> set space_runes then drop_space_runes (drop 2 r)
      else b # r)"

definition TrimRightFunc_IsSpace :: "string \<Rightarrow> string" where
  "TrimRightFunc_IsSpace s = rev (drop_space_runes (rev s))"

text \<open>
  The case that a \<^verbatim>\<open>select\<close> statement takes in one execution. The scheduler's choices
  are an input of the loops below.
\<close>

datatype select_case = CaseDone | CaseRecv

definition ErrClosedPipe :: error where
  "ErrClosedPipe = Error ''io: read/write on closed pipe''"

text \<open>
  \<^verbatim>\<open>writer.Write\<close> on the pipe. The pipe is represented by the chunks written so far.
  The reader is \<open>None\<close> when it reads until the writer closes, and \<open>Some k\<close> when it
  closes its end after \<open>k\<close> chunks, which makes every later write fail.
\<close>

definition Write :: "nat option \<Rightarrow> string list \<Rightarrow> string \<Rightarrow> error + string list" where
  "Write reader written b =
     (case reader of
        None \<Rightarrow> Inr (written @ [b])
      | Some k \<Rightarrow> if length written < k then Inr (written @ [b]) else Inl ErrClosedPipe)"

text \<open>
  What has become of a log stream: \<open>Closed ws\<close> when the goroutine wrote the chunks \<open>ws\<close>
  and closed the writer; \<open>Open ws\<close> when it wrote \<open>ws\<close> and waits in its \<^verbatim>\<open>select\<close>;
  \<open>Failed ws\<close> when a write after \<open>ws\<close> failed and \<^verbatim>\<open>require.NoError\<close> stopped the
  goroutine, which leaves the writer open.
\<close>

datatype stream = Closed "string list" | Open "string list" | Failed "string list"

text \<open>
  The loop of the goroutine. \<open>picks\<close> are the cases its \<^verbatim>\<open>select\<close> takes, \<open>output\<close> what
  the receives on the service's channel yield, \<open>now i\<close> the formatted reading
  \<^verbatim>\<open>time.Now().Format(time.RFC3339Nano)\<close> for the \<open>i\<close>-th content line. A pick of the
  receive case while the channel has nothing to yield cannot happen and is passed over.
  When the picks are used up the goroutine is waiting. \<open>Inr\<close> is the loop's normal end
  (\<^verbatim>\<open>done = true\<close>).
\<close>

fun logs_loop :: "(nat \<Rightarrow> string) \<Rightarrow> nat option \<Rightarrow> select_case list \<Rightarrow> nat
    \<Rightarrow> string option list \<Rightarrow> string list \<Rightarrow> stream + string list" where
  "logs_loop now reader [] i output written = Inl (Open written)"
| "logs_loop now reader (CaseDone # picks) i output written = Inr written"
| "logs_loop now reader (CaseRecv # picks) i [] written =
     logs_loop now reader picks i [] written"
| "logs_loop now reader (CaseRecv # picks) i (None # output) written = Inr written"
| "logs_loop now reader (CaseRecv # picks) i (Some s # output) written =
     (case Write reader written (now i @ '' '' @ TrimRightFunc_IsSpace s @ ''\<newline>'') of
        Inl err \<Rightarrow> Inl (Failed written)
      | Inr written' \<Rightarrow> logs_loop now reader picks (Suc i) output written')"

text \<open>\<^verbatim>\<open>StreamLogs\<close> for the service name \<^verbatim>\<open>spec.Service\<close>.\<close>

definition StreamLogs :: "(nat \<Rightarrow> string) \<Rightarrow> nat option \<Rightarrow> select_case list \<Rightarrow> string
    \<Rightarrow> ('spec, 'proj) FakeDCClient \<Rightarrow> stream" where
  "StreamLogs now reader picks service c =
     (let output = (case RunLogOutput c service of None \<Rightarrow> [] | Some rs \<Rightarrow> rs) in
      case Write reader [] (''Attaching to '' @ service @ ''\<newline>'') of
        Inl err \<Rightarrow> Failed []
      | Inr w1 \<Rightarrow>
          (case logs_loop now reader picks 0 output w1 of
             Inl stopped \<Rightarrow> stopped
           | Inr w2 \<Rightarrow>
               (case Write reader w2 (service @ '' exited with code 0\<newline>'') of
                  Inl err \<Rightarrow> Failed w2
                | Inr w3 \<Rightarrow> Closed w3)))"

text \<open>The content lines expected for the messages \<open>msgs\<close>, the first stamped \<open>now i\<close>.\<close>

fun content_lines :: "(nat \<Rightarrow> string) \<Rightarrow> nat \<Rightarrow> string list \<Rightarrow> string list" where
  "content_lines now i [] = []"
| "content_lines now i (m # ms) =
     (now i @ '' '' @ TrimRightFunc_IsSpace m @ ''\<newline>'') # content_lines now (Suc i) ms"

text \<open>A clock for the examples: the \<open>i\<close>-th reading has \<open>i + 1\<close> fractional digits.\<close>

definition example_clock :: "nat \<Rightarrow> string" where
  "example_clock i = ''2023-01-02T03:04:05.'' @ replicate (Suc i) (CHR ''1'') @ ''Z''"

definition example_client :: "(string, string) FakeDCClient" where
  "example_client =
     NewFakeDockerComposeClient \<lparr>RunLogOutput := [''web'' \<mapsto> [Some ''a'', Some ''b '', None]]\<rparr>"

text \<open>A client whose channel for \<^verbatim>\<open>web\<close> is open and has nothing to yield.\<close>

definition idle_client :: "(string, string) FakeDCClient" where
  "idle_client = NewFakeDockerComposeClient \<lparr>RunLogOutput := [''web'' \<mapsto> []]\<rparr>"

section \<open>Events\<close>

text \<open>
  A send on a buffered channel: it goes through when the buffer has room, and cannot
  proceed (\<open>None\<close>) when the buffer is full.
\<close>

definition chan_send :: "chan \<Rightarrow> string \<Rightarrow> chan option" where
  "chan_send ch v = (if length (buf ch) < cap ch then Some (ch\<lparr>buf := buf ch @ [v]\<rparr>) else None)"

text \<open>A call either returns or blocks in the state it was made in.\<close>

datatype 'a blocking = Blocks | Returns 'a

text \<open>
  \<^verbatim>\<open>SendEvent\<close>. The type \<^verbatim>\<open>Event\<close> is declared elsewhere, so \<^verbatim>\<open>json.Marshal\<close> on it is
  the parameter \<open>marshal\<close>.
\<close>

definition SendEvent :: "('evt \<Rightarrow> error + string) \<Rightarrow> 'evt \<Rightarrow> ('spec, 'proj) FakeDCClient
    \<Rightarrow> (error option \<times> ('spec, 'proj) FakeDCClient) blocking" where
  "SendEvent marshal evt c =
     (case marshal evt of
        Inl err \<Rightarrow> Returns (Some err, c)
      | Inr j \<Rightarrow>
          (case chan_send (eventJson c) j of
             None \<Rightarrow> Blocks
           | Some ch \<Rightarrow> Returns (None, c\<lparr>eventJson := ch\<rparr>)))"

text \<open>\<^verbatim>\<open>StreamEvents\<close> returns a new channel; its goroutine is \<open>distribute\<close> below.\<close>

definition StreamEvents :: "('spec, 'proj) FakeDCClient \<Rightarrow> chan \<times> error option" where
  "StreamEvents c = (\<lparr>cap = 10, buf = []\<rparr>, None)"

definition panic_message :: "string \<Rightarrow> string" where
  "panic_message event =
     ''no room on events channel to send event: '' @ [CHR 0x27] @ event @ [CHR 0x27]
       @ ''. Something is wrong (or you need to increase the buffer).''"

text \<open>The inner \<^verbatim>\<open>select\<close>: send the event if the channel has room, panic otherwise.\<close>

definition forward :: "string \<Rightarrow> chan \<Rightarrow> string + chan" where
  "forward event ch =
     (case chan_send ch event of
        Some ch' \<Rightarrow> Inr ch'
      | None \<Rightarrow> Inl (panic_message event))"

datatype loop_status = Running | Returned

text \<open>
  One subscription: the client's ingestion channel \<^verbatim>\<open>eventJson\<close>, the subscriber's channel
  \<^verbatim>\<open>events\<close> and the state of the goroutine. Beside them the events the goroutine has
  taken from \<^verbatim>\<open>eventJson\<close> and the events the subscriber has received are recorded.
\<close>

record bus =
  ingestion :: chan
  events :: chan
  status :: loop_status
  dequeued :: "string list"
  received :: "string list"

text \<open>
  One execution of the outer \<^verbatim>\<open>select\<close>; \<open>Inl\<close> is the panic. A pick of the receive case
  while \<^verbatim>\<open>eventJson\<close> is empty cannot happen and changes nothing.
\<close>

fun distribute :: "select_case \<Rightarrow> bus \<Rightarrow> string + bus" where
  "distribute CaseDone b = Inr (b\<lparr>status := Returned\<rparr>)"
| "distribute CaseRecv b =
     (case buf (ingestion b) of
        [] \<Rightarrow> Inr b
      | event # rest \<Rightarrow>
          (case forward event (events b) of
             Inl msg \<Rightarrow> Inl msg
           | Inr ch \<Rightarrow>
               Inr (b\<lparr>ingestion := (ingestion b)\<lparr>buf := rest\<rparr>, events := ch,
                      dequeued := dequeued b @ [event]\<rparr>)))"

text \<open>
  What can happen around a subscription: the goroutine executes its \<^verbatim>\<open>select\<close>, the
  subscriber receives one event, a producer's send of a serialized event goes through.
  A producer that finds \<^verbatim>\<open>eventJson\<close> full, and a subscriber that finds \<^verbatim>\<open>events\<close> empty,
  wait: the state stays as it is.
\<close>

datatype action = Loop select_case | Subscriber | Producer string

fun step :: "action \<Rightarrow> bus \<Rightarrow> string + bus" where
  "step (Loop pick) b = (if status b = Running then distribute pick b else Inr b)"
| "step Subscriber b =
     (case buf (events b) of
        [] \<Rightarrow> Inr b
      | event # rest \<Rightarrow>
          Inr (b\<lparr>events := (events b)\<lparr>buf := rest\<rparr>, received := received b @ [event]\<rparr>))"
| "step (Producer j) b =
     (case chan_send (ingestion b) j of
        None \<Rightarrow> Inr b
      | Some ch \<Rightarrow> Inr (b\<lparr>ingestion := ch\<rparr>))"

text \<open>A schedule of actions; the panic ends the run.\<close>

fun run :: "action list \<Rightarrow> bus \<Rightarrow> string + bus" where
  "run [] b = Inr b"
| "run (a # as) b = (case step a b of Inl msg \<Rightarrow> Inl msg | Inr b' \<Rightarrow> run as b')"

text \<open>
  The subscriber's channel is never full when the goroutine forwards an event during
  the schedule.
\<close>

fun never_full :: "action list \<Rightarrow> bus \<Rightarrow> bool" where
  "never_full [] b = True"
| "never_full (a # as) b =
     ((a = Loop CaseRecv \<and> status b = Running \<and> buf (ingestion b) \<noteq> []
         \<longrightarrow> length (buf (events b)) < cap (events b))
      \<and> (case step a b of Inl msg \<Rightarrow> True | Inr b' \<Rightarrow> never_full as b'))"

text \<open>The subscription that a call of \<^verbatim>\<open>StreamEvents\<close> on the client starts.\<close>

definition subscribe :: "('spec, 'proj) FakeDCClient \<Rightarrow> bus" where
  "subscribe c = \<lparr>ingestion = eventJson c, events = fst (StreamEvents c), status = Running,
      dequeued = [], received = []\<rparr>"

text \<open>
  An encoder for the examples: it fails on \<open>None\<close> and encodes \<open>Some s\<close> as \<open>s\<close> in braces.
\<close>

fun example_marshal :: "string option \<Rightarrow> error + string" where
  "example_marshal None = Inl (Error ''json: unsupported value'')"
| "example_marshal (Some s) = Inr (''{'' @ s @ ''}'')"

text \<open>The producers send the events \<open>e0\<close> to \<open>e10\<close>, one more than the subscriber's channel holds.\<close>

definition eleven_events :: "action list" where
  "eleven_events = map (\<lambda>i. Producer (''e'' @ replicate i (CHR ''+''))) [0..<11]"

text \<open>
  The subscriber has seen or can still receive every event the goroutine has taken, in
  the order taken, and its channel holds no more than its capacity.
\<close>

definition delivered :: "bus \<Rightarrow> bool" where
  "delivered b \<longleftrightarrow> dequeued b = received b @ buf (events b)
      \<and> length (buf (events b)) \<le> cap (events b)"

text \<open>
  Two schedules after the eleven sends. In the first the subscriber receives one event
  before the goroutine forwards the eleventh; in the second it receives nothing.
\<close>

definition keeps_up :: "action list" where
  "keeps_up = eleven_events @ replicate 10 (Loop CaseRecv) @ [Subscriber, Loop CaseRecv]"

definition falls_behind :: "action list" where
  "falls_behind = eleven_events @ replicate 11 (Loop CaseRecv)"

section \<open>The naming rule as described\<close>

text \<open>
  The naming rule once more, this time written from its description and not from the
  Go statements: lower-casing by a table of the letters, the retained characters as a
  list, the leading separators as a list. It is compared with \<^const>\<open>projectNameOpt\<close> below.
\<close>

definition upper_letters :: string where
  "upper_letters = ''ABCDEFGHIJKLMNOPQRSTUVWXYZ''"

definition lower_letters :: string where
  "lower_letters = ''abcdefghijklmnopqrstuvwxyz''"

definition spec_lowercase :: "char \<Rightarrow> char" where
  "spec_lowercase c =
     (case map_of (zip upper_letters lower_letters) c of Some l \<Rightarrow> l | None \<Rightarrow> c)"

definition spec_retained :: string where
  "spec_retained = lower_letters @ ''0123456789_-''"

definition spec_name :: "string \<Rightarrow> string" where
  "spec_name component =
     dropWhile (\<lambda>c. c \<in> set ''_-'')
       (filter (\<lambda>c. c \<in> set spec_retained) (map spec_lowercase component))"

text \<open>
  The name has neither the bytes of U+0130 nor those of U+212A, the two runes beyond
  ASCII whose lower case is an ASCII letter.
\<close>

fun ascii_folding_free :: "string \<Rightarrow> bool" where
  "ascii_folding_free [] = True"
| "ascii_folding_free (c # cs) =
     (\<not> (c = CHR 0xC4 \<and> take 1 cs = [CHR 0xB0])
      \<and> \<not> (c = CHR 0xE2 \<and> take 2 cs = [CHR 0x84, CHR 0xAA])
      \<and> ascii_folding_free cs)"

section \<open>Example clients\<close>

text \<open>Clients with one injected fault each, and a sequence of calls for the examples.\<close>

definition down_faulty :: "(string, string) FakeDCClient" where
  "down_faulty = NewFakeDockerComposeClient \<lparr>DownError := Some (Error ''down failed'')\<rparr>"

definition rm_faulty :: "(string, string) FakeDCClient" where
  "rm_faulty = NewFakeDockerComposeClient \<lparr>RmError := Some (Error ''rm failed'')\<rparr>"

definition example_calls :: "(string, string) call list" where
  "example_calls = [CallDown ''p'', CallRm [''web''], CallUp ''web'' True, CallRm [], CallDown ''q'']"

section \<open>Properties of the lifecycle operations\<close>

lemma do_call_faults:
  "DownError (snd (do_call x c)) = DownError c \<and> RmError (snd (do_call x c)) = RmError c"
  by (cases x) (simp_all add: Up_def Down_def Rm_def Let_def split: option.splits)

lemma do_call_result: "fst (do_call x c) = expected_result (DownError c) (RmError c) x"
  by (cases x) (simp_all add: Up_def Down_def Rm_def Let_def split: option.splits)

lemma do_call_histories:
  "UpCalls (snd (do_call x c)) = UpCalls c @ up_records [x]
   \<and> DownCalls (snd (do_call x c)) = DownCalls c @ down_records [x]
   \<and> RmCalls (snd (do_call x c)) = RmCalls c @ rm_records [x]"
  by (cases x) (simp_all add: Up_def Down_def Rm_def Let_def split: option.splits)

lemma run_calls_Cons:
  "run_calls (x # xs) c =
     (fst (do_call x c) # fst (run_calls xs (snd (do_call x c))),
      snd (run_calls xs (snd (do_call x c))))"
  by (simp add: split_beta Let_def)

lemma run_calls_faults:
  "DownError (snd (run_calls xs c)) = DownError c \<and> RmError (snd (run_calls xs c)) = RmError c"
proof (induction xs arbitrary: c)
  case Nil
  show ?case by simp
next
  case (Cons x xs)
  show ?case
    unfolding run_calls_Cons snd_conv
    using Cons.IH [of "snd (do_call x c)"] do_call_faults [of x c] by simp
qed

lemma run_calls_results:
  "fst (run_calls xs c) = map (expected_result (DownError c) (RmError c)) xs"
proof (induction xs arbitrary: c)
  case Nil
  show ?case by simp
next
  case (Cons x xs)
  show ?case
    unfolding run_calls_Cons fst_conv
    using Cons.IH [of "snd (do_call x c)"] do_call_faults [of x c] do_call_result [of x c]
    by simp
qed

lemma up_records_append: "up_records (x # xs) = up_records [x] @ up_records xs"
  by (cases x) simp_all

lemma down_records_append: "down_records (x # xs) = down_records [x] @ down_records xs"
  by (cases x) simp_all

lemma rm_records_append: "rm_records (x # xs) = rm_records [x] @ rm_records xs"
  by (cases x) simp_all

lemma run_calls_histories:
  "UpCalls (snd (run_calls xs c)) = UpCalls c @ up_records xs
   \<and> DownCalls (snd (run_calls xs c)) = DownCalls c @ down_records xs
   \<and> RmCalls (snd (run_calls xs c)) = RmCalls c @ rm_records xs"
proof (induction xs arbitrary: c)
  case Nil
  show ?case by simp
next
  case (Cons x xs)
  have "UpCalls (snd (run_calls (x # xs) c)) = UpCalls c @ up_records [x] @ up_records xs"
    and "DownCalls (snd (run_calls (x # xs) c)) = DownCalls c @ down_records [x] @ down_records xs"
    and "RmCalls (snd (run_calls (x # xs) c)) = RmCalls c @ rm_records [x] @ rm_records xs"
    unfolding run_calls_Cons snd_conv
    using Cons.IH [of "snd (do_call x c)"] do_call_histories [of x c] by simp_all
  then show ?case
    using up_records_append [of x xs] down_records_append [of x xs] rm_records_append [of x xs]
    by simp
qed

lemma records_count:
  "length (up_records xs) + length (down_records xs) + length (rm_records xs) = length xs"
proof (induction xs)
  case Nil
  show ?case by simp
next
  case (Cons x xs)
  then show ?case by (cases x) simp_all
qed

text \<open>
  Claim C9. \<^verbatim>\<open>Version\<close> never returns an error: on every client it returns a version string
  and the variant \<^verbatim>\<open>tilt-fake\<close>. The version is \<^verbatim>\<open>v1.29.2\<close> when \<^verbatim>\<open>VersionOutput\<close> is empty and
  \<^verbatim>\<open>VersionOutput\<close> itself otherwise, so it is never empty.
\<close>

theorem Version_total:
  "snd (snd (Version c)) = None
   \<and> fst (snd (Version c)) = ''tilt-fake''
   \<and> fst (Version (c\<lparr>VersionOutput := []\<rparr>)) = ''v1.29.2''
   \<and> fst (Version c) = (if VersionOutput c = [] then ''v1.29.2'' else VersionOutput c)
   \<and> fst (Version c) \<noteq> []"
  by (simp add: Version_def)

text \<open>
  Claim C3. On every client, whatever its two injected faults are, after any sequence
  of Up, Down and Rm calls both \<^verbatim>\<open>DownError\<close> and \<^verbatim>\<open>RmError\<close> are what they were, every
  Down call of the sequence returned the Down fault and every Rm call returned the Rm
  fault. In particular a Down fault \<open>e\<close> is returned by every Down call and is still set
  afterwards, and an Rm fault \<open>e'\<close> is returned by every Rm call and is still set
  afterwards, each whether or not the other fault is set. No single call changes either
  fault, and setting one fault does not change what the call for the other returns.
\<close>

theorem sticky_faults:
  "DownError (snd (run_calls xs c)) = DownError c
   \<and> RmError (snd (run_calls xs c)) = RmError c
   \<and> length (fst (run_calls xs c)) = length xs
   \<and> (\<forall>i<length xs. \<forall>proj. xs ! i = CallDown proj \<longrightarrow> fst (run_calls xs c) ! i = DownError c)
   \<and> (\<forall>i<length xs. \<forall>specs. xs ! i = CallRm specs \<longrightarrow> fst (run_calls xs c) ! i = RmError c)
   \<and> fst (Down proj c) = DownError c \<and> DownError (snd (Down proj c)) = DownError c
   \<and> RmError (snd (Down proj c)) = RmError c
   \<and> fst (Rm specs c) = RmError c \<and> RmError (snd (Rm specs c)) = RmError c
   \<and> DownError (snd (Rm specs c)) = DownError c
   \<and> DownError (snd (Up spec b c)) = DownError c \<and> RmError (snd (Up spec b c)) = RmError c
   \<and> fst (Down proj (c\<lparr>RmError := x\<rparr>)) = DownError c
   \<and> fst (Rm specs (c\<lparr>DownError := y\<rparr>)) = RmError c
   \<and> (DownError c = Some e \<longrightarrow>
        DownError (snd (run_calls xs c)) = Some e
        \<and> (\<forall>i<length xs. \<forall>proj. xs ! i = CallDown proj \<longrightarrow> fst (run_calls xs c) ! i = Some e))
   \<and> (RmError c = Some e' \<longrightarrow>
        RmError (snd (run_calls xs c)) = Some e'
        \<and> (\<forall>i<length xs. \<forall>specs. xs ! i = CallRm specs \<longrightarrow> fst (run_calls xs c) ! i = Some e'))"
proof -
  have other: "fst (Down proj (c\<lparr>RmError := x\<rparr>)) = DownError c
     \<and> fst (Rm specs (c\<lparr>DownError := y\<rparr>)) = RmError c"
    using do_call_result [of "CallDown proj" "c\<lparr>RmError := x\<rparr>"]
      do_call_result [of "CallRm specs" "c\<lparr>DownError := y\<rparr>"]
    by simp
  have single: "fst (Down proj c) = DownError c \<and> DownError (snd (Down proj c)) = DownError c
     \<and> RmError (snd (Down proj c)) = RmError c
     \<and> fst (Rm specs c) = RmError c \<and> RmError (snd (Rm specs c)) = RmError c
     \<and> DownError (snd (Rm specs c)) = DownError c
     \<and> DownError (snd (Up spec b c)) = DownError c \<and> RmError (snd (Up spec b c)) = RmError c"
    using do_call_faults [of "CallDown proj" c] do_call_faults [of "CallRm specs" c]
      do_call_faults [of "CallUp spec b" c]
      do_call_result [of "CallDown proj" c] do_call_result [of "CallRm specs" c]
    by simp
  have res: "fst (run_calls xs c) = map (expected_result (DownError c) (RmError c)) xs"
    by (rule run_calls_results)
  have downs: "\<forall>i<length xs. \<forall>proj. xs ! i = CallDown proj \<longrightarrow>
      fst (run_calls xs c) ! i = DownError c"
    by (simp add: res)
  have rms: "\<forall>i<length xs. \<forall>specs. xs ! i = CallRm specs \<longrightarrow>
      fst (run_calls xs c) ! i = RmError c"
    by (simp add: res)
  have len: "length (fst (run_calls xs c)) = length xs"
    by (simp add: res)
  have faults: "DownError (snd (run_calls xs c)) = DownError c
      \<and> RmError (snd (run_calls xs c)) = RmError c"
    by (rule run_calls_faults)
  have d: "DownError c = Some e \<longrightarrow>
        DownError (snd (run_calls xs c)) = Some e
        \<and> (\<forall>i<length xs. \<forall>proj. xs ! i = CallDown proj \<longrightarrow> fst (run_calls xs c) ! i = Some e)"
    using downs faults by simp
  have r: "RmError c = Some e' \<longrightarrow>
        RmError (snd (run_calls xs c)) = Some e'
        \<and> (\<forall>i<length xs. \<forall>specs. xs ! i = CallRm specs \<longrightarrow> fst (run_calls xs c) ! i = Some e')"
    using rms faults by simp
  from faults len downs rms single other d r show ?thesis by (simp only: simp_thms)
qed

theorem sticky_faults_witness:
  "DownError down_faulty = Some (Error ''down failed'') \<and> RmError down_faulty = None
   \<and> fst (run_calls example_calls down_faulty)
       = [Some (Error ''down failed''), None, None, None, Some (Error ''down failed'')]
   \<and> DownError (snd (run_calls example_calls down_faulty)) = Some (Error ''down failed'')
   \<and> RmError rm_faulty = Some (Error ''rm failed'') \<and> DownError rm_faulty = None
   \<and> fst (run_calls example_calls rm_faulty)
       = [None, Some (Error ''rm failed''), None, Some (Error ''rm failed''), None]
   \<and> RmError (snd (run_calls example_calls rm_faulty)) = Some (Error ''rm failed'')
   \<and> DownError (snd (run_calls example_calls rm_faulty)) = None"
proof -
  have d: "DownError down_faulty = Some (Error ''down failed'')" "RmError down_faulty = None"
    by (simp_all add: down_faulty_def NewFakeDockerComposeClient_def)
  have r: "RmError rm_faulty = Some (Error ''rm failed'')" "DownError rm_faulty = None"
    by (simp_all add: rm_faulty_def NewFakeDockerComposeClient_def)
  have d4: "(4::nat) < length example_calls" "example_calls ! 4 = CallDown ''q''"
    and r3: "(3::nat) < length example_calls" "example_calls ! 3 = CallRm []"
    by (simp_all add: example_calls_def)
  have "fst (run_calls example_calls down_faulty) ! 4 = Some (Error ''down failed'')"
    and dd: "DownError (snd (run_calls example_calls down_faulty)) = Some (Error ''down failed'')"
    using sticky_faults [where xs = example_calls and c = down_faulty
        and e = "Error ''down failed''"] d d4 by blast+
  have "fst (run_calls example_calls rm_faulty) ! 3 = Some (Error ''rm failed'')"
    and rr: "RmError (snd (run_calls example_calls rm_faulty)) = Some (Error ''rm failed'')"
    and rd: "DownError (snd (run_calls example_calls rm_faulty)) = None"
    using sticky_faults [where xs = example_calls and c = rm_faulty
        and e' = "Error ''rm failed''"] r r3 by (blast, blast, metis)
  have l1: "fst (run_calls example_calls down_faulty)
       = [Some (Error ''down failed''), None, None, None, Some (Error ''down failed'')]"
    by (simp add: example_calls_def down_faulty_def Up_def Down_def Rm_def
        NewFakeDockerComposeClient_def)
  have l2: "fst (run_calls example_calls rm_faulty)
       = [None, Some (Error ''rm failed''), None, Some (Error ''rm failed''), None]"
    by (simp add: example_calls_def rm_faulty_def Up_def Down_def Rm_def
        NewFakeDockerComposeClient_def)
  from d r dd rr rd l1 l2 show ?thesis by (simp only: simp_thms)
qed

text \<open>
  Claim C4. After any sequence of Up, Down and Rm calls, each history is the history
  before the sequence followed by one record for each call of its kind, in call order;
  the records of the three histories together are as many as the calls. A single call
  appends its record whether or not it returns an error, and an UpCall record holds the
  spec and the flag of its call.
\<close>

theorem histories_append_only:
  "UpCalls (snd (run_calls xs c)) = UpCalls c @ up_records xs
   \<and> DownCalls (snd (run_calls xs c)) = DownCalls c @ down_records xs
   \<and> RmCalls (snd (run_calls xs c)) = RmCalls c @ rm_records xs
   \<and> length (up_records xs) + length (down_records xs) + length (rm_records xs) = length xs
   \<and> UpCalls (snd (Up spec b c)) = UpCalls c @ [\<lparr>Spec = spec, ShouldBuild = b\<rparr>]
   \<and> DownCalls (snd (Down proj c)) = DownCalls c @ [\<lparr>Proj = proj\<rparr>]
   \<and> RmCalls (snd (Rm specs c)) = RmCalls c @ [\<lparr>Specs = specs\<rparr>]"
  using run_calls_histories [of xs c] records_count [of xs]
    do_call_histories [of "CallUp spec b" c] do_call_histories [of "CallDown proj" c]
    do_call_histories [of "CallRm specs" c]
  by simp

section \<open>Properties of the project name\<close>

lemma Join_empty_sep: "Join xs [] = concat xs"
  by (induction xs "[] :: string" rule: Join.induct) simp_all

lemma concat_FindAllString: "concat (FindAllString s) = filter class_char s"
  by (induction s) simp_all

lemma TrimLeft_dropWhile: "TrimLeft s cutset = dropWhile (\<lambda>c. c \<in> set cutset) s"
  by (induction s) simp_all

lemma cutset_is_separator: "(\<lambda>c. c \<in> set ''_-'') = is_separator"
  by (auto simp: is_separator_def)

lemma normalize_name_eq:
  "normalize_name s = dropWhile is_separator (filter class_char (ToLower s))"
  unfolding normalize_name_def Join_empty_sep concat_FindAllString TrimLeft_dropWhile
    cutset_is_separator ..

lemma class_char_lower_ascii: "class_char c \<Longrightarrow> lower_ascii c = c"
  by (auto simp: class_char_def lower_ascii_def between_def)

lemma class_char_not_lead: "class_char c \<Longrightarrow> c \<noteq> CHR 0xC4 \<and> c \<noteq> CHR 0xE2"
  by (auto simp: class_char_def between_def)

lemma ToLower_class: "\<forall>c\<in>set s. class_char c \<Longrightarrow> ToLower s = s"
proof (induction s)
  case Nil
  show ?case by simp
next
  case (Cons c s)
  then show ?case
    using class_char_lower_ascii [of c] class_char_not_lead [of c] by simp
qed

lemma normalize_name_class: "\<forall>c\<in>set (normalize_name s). class_char c"
  using set_dropWhileD by (fastforce simp: normalize_name_eq)

lemma normalize_name_head: "normalize_name s = [] \<or> \<not> is_separator (hd (normalize_name s))"
  unfolding normalize_name_eq using hd_dropWhile [of is_separator] by blast

lemma normalize_name_fixed:
  assumes "\<forall>c\<in>set s. class_char c" and "s = [] \<or> \<not> is_separator (hd s)"
  shows "normalize_name s = s"
proof -
  have "filter class_char s = s" using assms(1) by (simp add: filter_id_conv)
  moreover have "dropWhile is_separator s = s"
    using assms(2) by (cases s) auto
  ultimately show ?thesis
    using ToLower_class [OF assms(1)] by (simp add: normalize_name_eq)
qed

lemma normalize_name_twice: "normalize_name (normalize_name s) = normalize_name s"
  using normalize_name_fixed [OF normalize_name_class normalize_name_head] .

lemma normalize_fallback: "normalize_name ''fakedc'' = ''fakedc''"
  by code_simp

lemma normalize_example: "normalize_name ''My-App_2'' = ''my-app_2''"
  by code_simp

lemma upper_table: "\<forall>n\<in>set [65..<91]. spec_lowercase (char_of n) = char_of (n + 32)"
  by code_simp

lemma upper_between: "\<forall>u\<in>set upper_letters. between CHR ''A'' CHR ''Z'' u"
  by code_simp

lemma upper_keys: "map fst (zip upper_letters lower_letters) = upper_letters"
  by code_simp

lemma lower_ascii_spec: "lower_ascii c = spec_lowercase c"
proof (cases "between CHR ''A'' CHR ''Z'' c")
  case True
  then have "65 \<le> (of_char c :: nat) \<and> (of_char c :: nat) \<le> 90"
    by (simp add: between_def)
  then have "(of_char c :: nat) \<in> set [65..<91]"
    unfolding set_upt atLeastLessThan_iff by linarith
  with upper_table have "spec_lowercase (char_of (of_char c :: nat)) = char_of (of_char c + 32 :: nat)"
    by blast
  with True show ?thesis by (simp add: lower_ascii_def)
next
  case False
  with upper_between have "c \<notin> set upper_letters" by blast
  then have "c \<notin> fst ` set (zip upper_letters lower_letters)"
    using upper_keys by (metis set_map)
  then have "map_of (zip upper_letters lower_letters) c = None"
    by (simp add: map_of_eq_None_iff)
  with False show ?thesis by (simp add: lower_ascii_def spec_lowercase_def)
qed

lemma retained_table:
  "\<forall>n\<in>set ([97..<123] @ [48..<58]). char_of n \<in> set spec_retained"
  by code_simp

lemma retained_class: "\<forall>c\<in>set spec_retained. class_char c"
  by code_simp

lemma class_char_spec: "class_char c \<longleftrightarrow> c \<in> set spec_retained"
proof
  assume c: "class_char c"
  show "c \<in> set spec_retained"
  proof (cases "c = CHR ''_'' \<or> c = CHR ''-''")
    case True
    then show ?thesis by (auto simp: spec_retained_def)
  next
    case False
    with c have "(97 \<le> (of_char c :: nat) \<and> (of_char c :: nat) \<le> 122)
        \<or> (48 \<le> (of_char c :: nat) \<and> (of_char c :: nat) \<le> 57)"
      by (simp add: class_char_def between_def)
    then have "(of_char c :: nat) \<in> set ([97..<123] @ [48..<58])"
      unfolding set_append set_upt Un_iff atLeastLessThan_iff by linarith
    with retained_table have "char_of (of_char c :: nat) \<in> set spec_retained" by blast
    then show ?thesis by simp
  qed
next
  assume "c \<in> set spec_retained"
  with retained_class show "class_char c" by blast
qed

lemma ToLower_plain: "ascii_folding_free s \<Longrightarrow> ToLower s = map lower_ascii s"
  by (induction s) auto

lemma normalize_name_spec:
  assumes "ascii_folding_free name"
  shows "normalize_name name = spec_name name"
proof -
  have "class_char = (\<lambda>c. c \<in> set spec_retained)"
    using class_char_spec by blast
  moreover have "lower_ascii = spec_lowercase"
    using lower_ascii_spec by blast
  moreover have "is_separator = (\<lambda>c. c \<in> set ''_-'')"
    using cutset_is_separator by simp
  ultimately show ?thesis
    using ToLower_plain [OF assms] by (simp only: normalize_name_eq spec_name_def)
qed

lemma Base_final:
  assumes "name \<noteq> []" and "CHR ''/'' \<notin> set name" and "pre = [] \<or> last pre = CHR ''/''"
  shows "Base (pre @ name @ replicate k (CHR ''/'')) = name"
proof -
  have hd: "hd (rev name) \<noteq> CHR ''/''"
    using assms(1,2) by (metis hd_rev last_in_set)
  have "dropWhile (\<lambda>c. c = CHR ''/'') (rev (pre @ name @ replicate k (CHR ''/'')))
      = rev name @ rev pre"
    using assms(1) hd by (cases "rev name") (auto simp: dropWhile_append)
  moreover have "takeWhile (\<lambda>c. c \<noteq> CHR ''/'') (rev name @ rev pre) = rev name"
  proof -
    have all: "\<And>x. x \<in> set (rev name) \<Longrightarrow> x \<noteq> CHR ''/''"
      using assms(2) by auto
    have "takeWhile (\<lambda>c. c \<noteq> CHR ''/'') (rev pre) = []"
      using assms(3) by (cases pre rule: rev_cases) simp_all
    then show ?thesis
      using takeWhile_append2 [of "rev name" "\<lambda>c. c \<noteq> CHR ''/''" "rev pre"] all by simp
  qed
  ultimately show ?thesis using assms(1) by (simp add: Base_def)
qed

lemma Base_root: "Base (replicate (Suc k) (CHR ''/'')) = ''/''"
proof -
  have "dropWhile (\<lambda>c. c = CHR ''/'') (replicate (Suc k) (CHR ''/'')) = []"
    by (simp only: dropWhile_eq_Nil_conv) simp
  then show ?thesis by (simp add: Base_def del: replicate_Suc dropWhile.simps) 
qed

lemma ToLower_dotted_I:
  "ToLower (a @ [CHR 0xC4, CHR 0xB0] @ b) = ToLower a @ ''i'' @ ToLower b"
proof (induction a rule: ToLower.induct)
  case 1
  show ?case by simp
next
  case (2 c cs)
  show ?case
  proof (cases cs)
    case Nil
    then show ?thesis by simp
  next
    case c1: (Cons d ds)
    show ?thesis
    proof (cases ds)
      case Nil
      with c1 2 show ?thesis by simp
    next
      case (Cons d2 ds2)
      with c1 2 show ?thesis by simp
    qed
  qed
qed

lemma ToLower_kelvin:
  "ToLower (a @ [CHR 0xE2, CHR 0x84, CHR 0xAA] @ b) = ToLower a @ ''k'' @ ToLower b"
proof (induction a rule: ToLower.induct)
  case 1
  show ?case by simp
next
  case (2 c cs)
  show ?case
  proof (cases cs)
    case Nil
    then show ?thesis by simp
  next
    case c1: (Cons d ds)
    show ?thesis
    proof (cases ds)
      case Nil
      with c1 2 show ?thesis by simp
    next
      case (Cons d2 ds2)
      with c1 2 show ?thesis by simp
    qed
  qed
qed

lemma path_shape:
  assumes "workDir \<noteq> []"
  shows "(\<exists>k. workDir = replicate (Suc k) (CHR ''/''))
     \<or> (\<exists>pre name k. workDir = pre @ name @ replicate k (CHR ''/'') \<and> name \<noteq> []
           \<and> CHR ''/'' \<notin> set name \<and> (pre = [] \<or> last pre = CHR ''/''))"
proof -
  define s where "s = takeWhile (\<lambda>c. c = CHR ''/'') (rev workDir)"
  define t where "t = dropWhile (\<lambda>c. c = CHR ''/'') (rev workDir)"
  have st: "rev workDir = s @ t" by (simp add: s_def t_def)
  have "\<forall>c\<in>set s. c = CHR ''/''" unfolding s_def by (auto dest: set_takeWhileD)
  then have s: "s = replicate (length s) (CHR ''/'')"
    by (simp add: replicate_length_same)
  have wd: "workDir = rev t @ replicate (length s) (CHR ''/'')"
  proof -
    have "workDir = rev (s @ t)" using st by (metis rev_rev_ident)
    also have "\<dots> = rev t @ rev s" by simp
    also have "rev s = replicate (length s) (CHR ''/'')" using s by (metis rev_replicate)
    finally show ?thesis .
  qed
  show ?thesis
  proof (cases "t = []")
    case True
    with wd assms have "workDir = replicate (Suc (length s - 1)) (CHR ''/'')"
      by (cases "length s") auto
    then show ?thesis by blast
  next
    case False
    define n where "n = takeWhile (\<lambda>c. c \<noteq> CHR ''/'') t"
    define p where "p = dropWhile (\<lambda>c. c \<noteq> CHR ''/'') t"
    have t: "t = n @ p" by (simp add: n_def p_def)
    have "hd t \<noteq> CHR ''/''"
      using False unfolding t_def by (metis (mono_tags, lifting) hd_dropWhile)
    then have n1: "n \<noteq> []" using False unfolding n_def by (cases t) auto
    have n2: "CHR ''/'' \<notin> set n" unfolding n_def by (auto dest: set_takeWhileD)
    have p: "p = [] \<or> hd p = CHR ''/''"
      unfolding p_def using hd_dropWhile [of "\<lambda>c. c \<noteq> CHR ''/''" t] by blast
    then have "rev p = [] \<or> last (rev p) = CHR ''/''"
      by (cases p) auto
    moreover have "workDir = rev p @ rev n @ replicate (length s) (CHR ''/'')"
      using wd t by simp
    ultimately show ?thesis using n1 n2
      by (metis rev_is_Nil_conv set_rev)
  qed
qed

text \<open>
  Claim C5. For the empty working directory the project name is the fallback \<^verbatim>\<open>fakedc\<close>,
  which is not empty. A working directory that is not empty consists of separators only,
  or of a prefix that is empty or ends in a separator, a final element without a
  separator, and any number of trailing separators. In the second case the name is
  computed from that final element: it is lower-cased, only the characters of
  \<^verbatim>\<open>[a-z0-9_-]\<close> are kept, and every leading \<^verbatim>\<open>_\<close> and \<^verbatim>\<open>-\<close> is removed. For a final element
  without U+0130 and U+212A that is the rule as described, with the letters folded by
  the table; each of those two runes contributes \<^verbatim>\<open>i\<close> and \<^verbatim>\<open>k\<close>. A directory of separators
  only gives the empty name. For the final element \<^verbatim>\<open>My-App_2\<close> the name is \<^verbatim>\<open>my-app_2\<close>.
\<close>

theorem project_name_rule:
  "projectNameOpt [] = ''fakedc''
   \<and> projectNameOpt [] \<noteq> []
   \<and> (workDir \<noteq> [] \<longrightarrow>
        (\<exists>k. workDir = replicate (Suc k) (CHR ''/''))
        \<or> (\<exists>pre name k. workDir = pre @ name @ replicate k (CHR ''/'') \<and> name \<noteq> []
              \<and> CHR ''/'' \<notin> set name \<and> (pre = [] \<or> last pre = CHR ''/'')))
   \<and> (name \<noteq> [] \<and> CHR ''/'' \<notin> set name \<and> (pre = [] \<or> last pre = CHR ''/'') \<longrightarrow>
        Base (pre @ name @ replicate k (CHR ''/'')) = name
        \<and> projectNameOpt (pre @ name @ replicate k (CHR ''/''))
            = dropWhile is_separator (filter class_char (ToLower name))
        \<and> (ascii_folding_free name \<longrightarrow>
              projectNameOpt (pre @ name @ replicate k (CHR ''/'')) = spec_name name))
   \<and> projectNameOpt (replicate (Suc k) (CHR ''/'')) = []
   \<and> filter class_char (ToLower (a @ [CHR 0xC4, CHR 0xB0] @ b))
        = filter class_char (ToLower a) @ ''i'' @ filter class_char (ToLower b)
   \<and> filter class_char (ToLower (a @ [CHR 0xE2, CHR 0x84, CHR 0xAA] @ b))
        = filter class_char (ToLower a) @ ''k'' @ filter class_char (ToLower b)
   \<and> (workDir \<noteq> [] \<longrightarrow>
        projectNameOpt workDir
          = dropWhile is_separator (filter class_char (ToLower (Base workDir))))
   \<and> (workDir \<noteq> [] \<and> Base workDir = ''My-App_2'' \<longrightarrow> projectNameOpt workDir = ''my-app_2'')
   \<and> (pre = [] \<or> last pre = CHR ''/'' \<longrightarrow>
        projectNameOpt (pre @ ''My-App_2'' @ replicate k (CHR ''/'')) = ''my-app_2'')"
proof -
  have final: "Base (pre @ nm @ replicate k (CHR ''/'')) = nm
        \<and> projectNameOpt (pre @ nm @ replicate k (CHR ''/''))
            = dropWhile is_separator (filter class_char (ToLower nm))
        \<and> (ascii_folding_free nm \<longrightarrow>
              projectNameOpt (pre @ nm @ replicate k (CHR ''/'')) = spec_name nm)"
    if "nm \<noteq> []" "CHR ''/'' \<notin> set nm" "pre = [] \<or> last pre = CHR ''/''" for nm
  proof -
    have b: "Base (pre @ nm @ replicate k (CHR ''/'')) = nm"
      using that by (rule Base_final)
    have "pre @ nm @ replicate k (CHR ''/'') \<noteq> []" using that(1) by simp
    then have "projectNameOpt (pre @ nm @ replicate k (CHR ''/'')) = normalize_name nm"
      using b by (simp add: projectNameOpt_def)
    then show ?thesis using b normalize_name_spec [of nm] by (simp add: normalize_name_eq)
  qed
  have root: "projectNameOpt (replicate (Suc k) (CHR ''/'')) = []"
  proof -
    have "normalize_name ''/'' = []" by code_simp
    then show ?thesis using Base_root [of k] by (simp add: projectNameOpt_def)
  qed
  have ci: "class_char (CHR ''i'')" and ck: "class_char (CHR ''k'')"
    by (simp_all add: class_char_def between_def)
  have dotted: "filter class_char (ToLower (a @ [CHR 0xC4, CHR 0xB0] @ b))
        = filter class_char (ToLower a) @ ''i'' @ filter class_char (ToLower b)"
    unfolding ToLower_dotted_I using ci by simp
  have kelvin: "filter class_char (ToLower (a @ [CHR 0xE2, CHR 0x84, CHR 0xAA] @ b))
        = filter class_char (ToLower a) @ ''k'' @ filter class_char (ToLower b)"
    unfolding ToLower_kelvin using ck by simp
  have general: "workDir \<noteq> [] \<longrightarrow>
        projectNameOpt workDir
          = dropWhile is_separator (filter class_char (ToLower (Base workDir)))"
    by (simp add: projectNameOpt_def normalize_name_eq)
  have ex1: "workDir \<noteq> [] \<and> Base workDir = ''My-App_2'' \<longrightarrow> projectNameOpt workDir = ''my-app_2''"
    using normalize_example by (simp add: projectNameOpt_def)
  have ex2: "pre = [] \<or> last pre = CHR ''/'' \<longrightarrow>
        projectNameOpt (pre @ ''My-App_2'' @ replicate k (CHR ''/'')) = ''my-app_2''"
  proof
    assume pre: "pre = [] \<or> last pre = CHR ''/''"
    have "''My-App_2'' \<noteq> []" and "CHR ''/'' \<notin> set ''My-App_2''" by simp_all
    from final [OF this pre]
    have "projectNameOpt (pre @ ''My-App_2'' @ replicate k (CHR ''/''))
        = dropWhile is_separator (filter class_char (ToLower ''My-App_2''))" by blast
    also have "\<dots> = normalize_name ''My-App_2''" by (simp only: normalize_name_eq)
    finally show "projectNameOpt (pre @ ''My-App_2'' @ replicate k (CHR ''/'')) = ''my-app_2''"
      using normalize_example by simp
  qed
  have fb: "projectNameOpt [] = ''fakedc'' \<and> projectNameOpt [] \<noteq> []"
    by (simp add: projectNameOpt_def)
  from fb path_shape [of workDir] final [of name] root dotted kelvin general ex1 ex2
  show ?thesis by blast
qed

theorem project_name_rule_witness:
  "''My-App_2'' \<noteq> [] \<and> CHR ''/'' \<notin> set ''My-App_2'' \<and> last ''/home/dev/'' = CHR ''/''
   \<and> ascii_folding_free ''My-App_2''
   \<and> ''/home/dev/My-App_2/'' \<noteq> []
   \<and> Base ''/home/dev/My-App_2/'' = ''My-App_2''
   \<and> spec_name ''My-App_2'' = ''my-app_2''
   \<and> projectNameOpt ''/home/dev/My-App_2/'' = ''my-app_2''"
proof -
  have n: "''My-App_2'' \<noteq> []" and sl: "CHR ''/'' \<notin> set ''My-App_2''"
    and pre: "last ''/home/dev/'' = CHR ''/''" by simp_all
  have ff: "ascii_folding_free ''My-App_2''" by simp
  have sp: "spec_name ''My-App_2'' = ''my-app_2''" by code_simp
  have wd: "''/home/dev/'' @ ''My-App_2'' @ replicate 1 (CHR ''/'') = ''/home/dev/My-App_2/''"
    by simp
  have ne: "''/home/dev/My-App_2/'' \<noteq> []" by simp
  have r: "Base (''/home/dev/'' @ ''My-App_2'' @ replicate 1 (CHR ''/'')) = ''My-App_2''
      \<and> projectNameOpt (''/home/dev/'' @ ''My-App_2'' @ replicate 1 (CHR ''/''))
          = spec_name ''My-App_2''"
    using project_name_rule [where name = "''My-App_2''" and pre = "''/home/dev/''" and k = 1]
      n sl pre ff by blast
  then have "Base ''/home/dev/My-App_2/'' = ''My-App_2''"
    and "projectNameOpt ''/home/dev/My-App_2/'' = ''my-app_2''"
    unfolding wd sp by blast+
  with n sl pre ff ne sp show ?thesis by (simp only: simp_thms)
qed

text \<open>
  Claim C6. The normalization is idempotent: normalizing a normalized name gives the
  same name, for every input; and every project name, the fallback included, is a
  fixed point of the normalization.
\<close>

theorem normalize_name_idempotent:
  "normalize_name (normalize_name s) = normalize_name s
   \<and> normalize_name (projectNameOpt d) = projectNameOpt d"
  using normalize_name_twice normalize_fallback by (simp add: projectNameOpt_def)

text \<open>
  Claim C10. For a working directory that is not empty, the project name is empty
  exactly when every character of the lower-cased final path element that the class
  \<^verbatim>\<open>[a-z0-9_-]\<close> keeps is \<^verbatim>\<open>_\<close> or \<^verbatim>\<open>-\<close>, as for the elements \<^verbatim>\<open>!!!\<close> and \<^verbatim>\<open>---\<close>: the
  fallback name is not used then.
\<close>

theorem empty_project_name:
  assumes "workDir \<noteq> []"
  shows "(projectNameOpt workDir = [] \<longleftrightarrow>
            (\<forall>c\<in>set (ToLower (Base workDir)). class_char c \<longrightarrow> is_separator c))
     \<and> (Base workDir = ''!!!'' \<longrightarrow> projectNameOpt workDir = [])
     \<and> (Base workDir = ''---'' \<longrightarrow> projectNameOpt workDir = [])"
proof -
  have name: "projectNameOpt workDir
      = dropWhile is_separator (filter class_char (ToLower (Base workDir)))"
    using assms by (simp add: projectNameOpt_def normalize_name_eq)
  have "(projectNameOpt workDir = [] \<longleftrightarrow>
            (\<forall>c\<in>set (ToLower (Base workDir)). class_char c \<longrightarrow> is_separator c))"
    unfolding name dropWhile_eq_Nil_conv by auto
  moreover have "normalize_name ''!!!'' = []" by code_simp
  moreover have "normalize_name ''---'' = []" by code_simp
  ultimately show ?thesis using assms by (simp add: projectNameOpt_def)
qed

theorem empty_project_name_witness:
  "''/srv/---'' \<noteq> [] \<and> Base ''/srv/---'' = ''---'' \<and> projectNameOpt ''/srv/---'' = []
   \<and> ''!!!'' \<noteq> [] \<and> Base ''!!!'' = ''!!!'' \<and> projectNameOpt ''!!!'' = []"
proof -
  have n1: "''/srv/---'' \<noteq> []" and n2: "''!!!'' \<noteq> []" by simp_all
  have b1: "Base ''/srv/---'' = ''---''" and b2: "Base ''!!!'' = ''!!!''"
    by (simp_all add: Base_def)
  have r1: "projectNameOpt ''/srv/---'' = []"
    using empty_project_name [OF n1] b1 by blast
  have r2: "projectNameOpt ''!!!'' = []"
    using empty_project_name [OF n2] b2 by blast
  from n1 n2 b1 b2 r1 r2 show ?thesis by (simp only: simp_thms)
qed

section \<open>Properties of the log stream\<close>

lemma drop_space_runes_stop:
  "drop_space_runes x = b # r \<Longrightarrow>
     [b] \<notin> set space_runes \<and> rev (b # take 1 r) \<notin> set space_runes
     \<and> rev (b # take 2 r) \<notin> set space_runes"
proof (induction x rule: drop_space_runes.induct)
  case 1
  then show ?case by simp
next
  case (2 a x)
  show ?case
  proof (cases "[a] \<in> set space_runes")
    case True
    with 2 show ?thesis by simp
  next
    case one: False
    show ?thesis
    proof (cases "rev (a # take 1 x) \<in> set space_runes")
      case True
      with 2 one show ?thesis by simp
    next
      case two: False
      show ?thesis
      proof (cases "rev (a # take 2 x) \<in> set space_runes")
        case True
        with 2 one two show ?thesis by simp
      next
        case False
        with 2 one two show ?thesis by simp
      qed
    qed
  qed
qed

lemma drop_space_runes_split:
  "\<exists>ws. set ws \<subseteq> set space_runes \<and> x = rev (concat ws) @ drop_space_runes x"
proof (induction x rule: drop_space_runes.induct)
  case 1
  show ?case by (rule exI [of _ "[]"]) simp
next
  case (2 a x)
  show ?case
  proof (cases "[a] \<in> set space_runes")
    case True
    with 2 obtain ws where ws: "set ws \<subseteq> set space_runes"
      "x = rev (concat ws) @ drop_space_runes x" by blast
    have "a # x = rev (concat (ws @ [[a]])) @ drop_space_runes (a # x)"
      using ws(2) True by simp
    moreover have "set (ws @ [[a]]) \<subseteq> set space_runes" using ws(1) True by simp
    ultimately show ?thesis by blast
  next
    case one: False
    show ?thesis
    proof (cases "rev (a # take 1 x) \<in> set space_runes")
      case True
      with 2 one obtain ws where ws: "set ws \<subseteq> set space_runes"
        "drop 1 x = rev (concat ws) @ drop_space_runes (drop 1 x)" by blast
      have "a # x = (a # take 1 x) @ drop 1 x" by simp
      also have "\<dots> = (a # take 1 x) @ rev (concat ws) @ drop_space_runes (drop 1 x)"
        using ws(2) by simp
      also have "\<dots> = rev (concat (ws @ [rev (a # take 1 x)])) @ drop_space_runes (a # x)"
        using one True by simp
      finally have "a # x = rev (concat (ws @ [rev (a # take 1 x)])) @ drop_space_runes (a # x)" .
      moreover have "set (ws @ [rev (a # take 1 x)]) \<subseteq> set space_runes"
        using ws(1) True by simp
      ultimately show ?thesis by blast
    next
      case two: False
      show ?thesis
      proof (cases "rev (a # take 2 x) \<in> set space_runes")
        case True
        with 2 one two obtain ws where ws: "set ws \<subseteq> set space_runes"
          "drop 2 x = rev (concat ws) @ drop_space_runes (drop 2 x)" by blast
        have "a # x = (a # take 2 x) @ drop 2 x" by simp
        also have "\<dots> = (a # take 2 x) @ rev (concat ws) @ drop_space_runes (drop 2 x)"
          using ws(2) by simp
        also have "\<dots> = rev (concat (ws @ [rev (a # take 2 x)])) @ drop_space_runes (a # x)"
          using one two True by simp
        finally have "a # x = rev (concat (ws @ [rev (a # take 2 x)])) @ drop_space_runes (a # x)" .
        moreover have "set (ws @ [rev (a # take 2 x)]) \<subseteq> set space_runes"
          using ws(1) True by simp
        ultimately show ?thesis by blast
      next
        case False
        with one two have "drop_space_runes (a # x) = a # x" by simp
        then show ?thesis by (intro exI [of _ "[]"]) simp
      qed
    qed
  qed
qed

lemma space_rune_length: "\<forall>w\<in>set space_runes. 1 \<le> length w \<and> length w \<le> 3"
  by (simp add: space_runes_def)

lemma short_list_shape:
  assumes "1 \<le> length w" and "length w \<le> 3"
  shows "(\<exists>a. w = [a]) \<or> (\<exists>a b. w = [a, b]) \<or> (\<exists>a b c. w = [a, b, c])"
proof (cases w)
  case Nil
  with assms show ?thesis by simp
next
  case w1: (Cons a w1)
  show ?thesis
  proof (cases w1)
    case Nil
    with w1 show ?thesis by simp
  next
    case w2: (Cons b w2)
    show ?thesis
    proof (cases w2)
      case Nil
      with w1 w2 show ?thesis by simp
    next
      case (Cons c w3)
      with w1 w2 assms show ?thesis by simp
    qed
  qed
qed

lemma space_rune_shape:
  "w \<in> set space_runes \<Longrightarrow> (\<exists>a. w = [a]) \<or> (\<exists>a b. w = [a, b]) \<or> (\<exists>a b c. w = [a, b, c])"
  using space_rune_length short_list_shape by blast

lemma TrimRightFunc_IsSpace_split:
  "\<exists>ws. set ws \<subseteq> set space_runes \<and> s = TrimRightFunc_IsSpace s @ concat ws"
proof -
  obtain ws where ws: "set ws \<subseteq> set space_runes"
    "rev s = rev (concat ws) @ drop_space_runes (rev s)"
    using drop_space_runes_split [of "rev s"] by blast
  have "s = rev (rev (concat ws) @ drop_space_runes (rev s))"
    using ws(2) by (metis rev_rev_ident)
  then have "s = TrimRightFunc_IsSpace s @ concat ws"
    by (simp add: TrimRightFunc_IsSpace_def)
  with ws(1) show ?thesis by blast
qed

lemma TrimRightFunc_IsSpace_end:
  assumes "w \<in> set space_runes"
  shows "TrimRightFunc_IsSpace s \<noteq> u @ w"
proof
  assume eq: "TrimRightFunc_IsSpace s = u @ w"
  then have y: "drop_space_runes (rev s) = rev w @ rev u"
    by (metis TrimRightFunc_IsSpace_def rev_append rev_rev_ident)
  from space_rune_shape [OF assms] show False
  proof (elim disjE exE)
    fix a assume w: "w = [a]"
    with y have "drop_space_runes (rev s) = a # rev u" by simp
    from drop_space_runes_stop [OF this] assms w show False by simp
  next
    fix a b assume w: "w = [a, b]"
    with y have "drop_space_runes (rev s) = b # a # rev u" by simp
    from drop_space_runes_stop [OF this] assms w show False by simp
  next
    fix a b c assume w: "w = [a, b, c]"
    with y have "drop_space_runes (rev s) = c # b # a # rev u" by simp
    from drop_space_runes_stop [OF this] assms w show False by simp
  qed
qed

lemma content_lines_map:
  "content_lines now i ms
     = map (\<lambda>k. now (i + k) @ '' '' @ TrimRightFunc_IsSpace (ms ! k) @ ''\<newline>'') [0..<length ms]"
proof (induction ms arbitrary: i)
  case Nil
  show ?case by simp
next
  case (Cons m ms)
  have "[0..<length (m # ms)] = 0 # map Suc [0..<length ms]"
    by (simp add: upt_conv_Cons map_Suc_upt del: upt_Suc)
  then show ?case using Cons.IH [of "Suc i"] by (simp add: comp_def del: upt_Suc)
qed

lemma logs_loop_complete:
  "logs_loop now None (replicate (Suc (length ms)) CaseRecv @ picks) i
       (map Some ms @ None # rest) w
     = Inr (w @ content_lines now i ms)"
proof (induction ms arbitrary: i w)
  case Nil
  show ?case by simp
next
  case (Cons m ms)
  show ?case
    using Cons.IH [of "Suc i" "w @ [now i @ '' '' @ TrimRightFunc_IsSpace m @ ''\<newline>'']"]
    by (simp add: Write_def)
qed

lemma logs_loop_idle:
  "CaseDone \<in> set picks \<Longrightarrow> logs_loop now reader picks i [] w = Inr w"
proof (induction picks)
  case Nil
  then show ?case by simp
next
  case (Cons p picks)
  then show ?case by (cases p) auto
qed

text \<open>
  Claim C1. When the channel of the service yields the messages \<open>msgs\<close> and is then
  closed, the \<^verbatim>\<open>select\<close> takes the receive case until it sees the channel closed, and
  the reader reads to the end, the stream is closed after exactly these chunks: the line
  \<^verbatim>\<open>Attaching to <service>\<close>, then for each message in order its time stamp, a space, the
  message without its trailing white space and a line feed, then the line
  \<^verbatim>\<open><service> exited with code 0\<close>. What the trimming removes from a message is a
  sequence of white-space runes, and what it leaves does not end in one. The time stamp
  of the \<open>k\<close>-th line is the clock reading \<open>now k\<close>, already formatted.
\<close>

theorem natural_completion_stream:
  assumes "RunLogOutput c service = Some (map Some msgs @ [None])"
  shows "StreamLogs now None (replicate (Suc (length msgs)) CaseRecv @ picks) service c
      = Closed ([''Attaching to '' @ service @ ''\<newline>'']
          @ map (\<lambda>k. now k @ '' '' @ TrimRightFunc_IsSpace (msgs ! k) @ ''\<newline>'')
              [0..<length msgs]
          @ [service @ '' exited with code 0\<newline>''])
     \<and> (\<forall>k<length msgs.
          (\<exists>ws. set ws \<subseteq> set space_runes
              \<and> msgs ! k = TrimRightFunc_IsSpace (msgs ! k) @ concat ws)
          \<and> (\<forall>w\<in>set space_runes. \<forall>u. TrimRightFunc_IsSpace (msgs ! k) \<noteq> u @ w))"
proof -
  have "logs_loop now None (replicate (Suc (length msgs)) CaseRecv @ picks) 0
       (map Some msgs @ [None]) [''Attaching to '' @ service @ ''\<newline>'']
     = Inr ([''Attaching to '' @ service @ ''\<newline>''] @ content_lines now 0 msgs)"
    by (rule logs_loop_complete)
  then have "StreamLogs now None (replicate (Suc (length msgs)) CaseRecv @ picks) service c
      = Closed ([''Attaching to '' @ service @ ''\<newline>''] @ content_lines now 0 msgs
          @ [service @ '' exited with code 0\<newline>''])"
    using assms by (simp add: StreamLogs_def Write_def)
  then show ?thesis
    using content_lines_map [of now 0 msgs] TrimRightFunc_IsSpace_split
      TrimRightFunc_IsSpace_end
    by simp
qed

theorem natural_completion_stream_witness:
  "RunLogOutput example_client ''web'' = Some (map Some [''a'', ''b ''] @ [None])
   \<and> StreamLogs example_clock None [CaseRecv, CaseRecv, CaseRecv] ''web'' example_client
      = Closed [''Attaching to web\<newline>'', ''2023-01-02T03:04:05.1Z a\<newline>'',
          ''2023-01-02T03:04:05.11Z b\<newline>'', ''web exited with code 0\<newline>'']"
proof -
  have h: "RunLogOutput example_client ''web'' = Some (map Some [''a'', ''b ''] @ [None])"
    by (simp add: example_client_def)
  have t: "TrimRightFunc_IsSpace ''a'' = ''a''" "TrimRightFunc_IsSpace ''b '' = ''b''"
    by (simp_all add: TrimRightFunc_IsSpace_def space_runes_def)
  have "StreamLogs example_clock None (replicate (Suc (length [''a'', ''b ''])) CaseRecv @ [])
          ''web'' example_client
      = Closed [''Attaching to web\<newline>'', ''2023-01-02T03:04:05.1Z a\<newline>'',
          ''2023-01-02T03:04:05.11Z b\<newline>'', ''web exited with code 0\<newline>'']"
    using natural_completion_stream [OF h, of example_clock "[]"] t
    by (simp add: example_clock_def upt_conv_Cons del: upt_Suc)
  then show ?thesis using h by (simp add: numeral_3_eq_3 numeral_2_eq_2)
qed

text \<open>
  Claim C2 says that a stream cancelled before any content line yields the attaching
  line only. For the service \<^verbatim>\<open>web\<close> with nothing to read, cancelled at once, the stream
  also has the line \<^verbatim>\<open>web exited with code 0\<close>: the loop's two ways out both lead to the
  write of that line.
\<close>

theorem cancelled_stream_counterexample:
  "StreamLogs example_clock None [CaseDone] ''web'' idle_client
      = Closed [''Attaching to web\<newline>'', ''web exited with code 0\<newline>'']
   \<and> StreamLogs example_clock None [CaseDone] ''web'' idle_client
      \<noteq> Closed [''Attaching to web\<newline>'']"
  by (simp add: StreamLogs_def Write_def idle_client_def)

text \<open>
  Claim C2, amended. When the \<^verbatim>\<open>select\<close> takes the cancellation case before any content
  line is produced, the stream yields the attaching line for the service, then the line
  \<^verbatim>\<open><service> exited with code 0\<close>, and is closed. The same holds when the channel is
  \<^verbatim>\<open>nil\<close> or has nothing to yield and the cancellation case is taken at some point.
\<close>

theorem cancelled_stream:
  "StreamLogs now None (CaseDone # picks) service c
      = Closed [''Attaching to '' @ service @ ''\<newline>'', service @ '' exited with code 0\<newline>'']
   \<and> ((RunLogOutput c service = None \<or> RunLogOutput c service = Some [])
          \<and> CaseDone \<in> set picks \<longrightarrow>
        StreamLogs now None picks service c
          = Closed [''Attaching to '' @ service @ ''\<newline>'',
              service @ '' exited with code 0\<newline>''])"
  using logs_loop_idle [of picks now None 0 "[''Attaching to '' @ service @ ''\<newline>'']"]
  by (auto simp: StreamLogs_def Write_def)

theorem cancelled_stream_witness:
  "RunLogOutput idle_client ''web'' = Some [] \<and> CaseDone \<in> set [CaseRecv, CaseDone]
   \<and> StreamLogs example_clock None [CaseRecv, CaseDone] ''web'' idle_client
      = Closed [''Attaching to web\<newline>'', ''web exited with code 0\<newline>'']"
proof -
  have h: "RunLogOutput idle_client ''web'' = Some []" by (simp add: idle_client_def)
  have p: "CaseDone \<in> set [CaseRecv, CaseDone]" by simp
  have "StreamLogs example_clock None [CaseRecv, CaseDone] ''web'' idle_client
      = Closed [''Attaching to '' @ ''web'' @ ''\<newline>'', ''web'' @ '' exited with code 0\<newline>'']"
    using cancelled_stream [where now = example_clock and service = "''web''"
        and c = idle_client and picks = "[CaseRecv, CaseDone]"] h p
    by blast
  then show ?thesis using h p by simp
qed

section \<open>Properties of the event operations\<close>

lemma do_call_eventJson: "eventJson (snd (do_call x c)) = eventJson c"
  by (cases x) (simp_all add: Up_def Down_def Rm_def Let_def split: option.splits)

lemma run_calls_eventJson: "eventJson (snd (run_calls xs c)) = eventJson c"
proof (induction xs arbitrary: c)
  case Nil
  show ?case by simp
next
  case (Cons x xs)
  show ?case
    unfolding run_calls_Cons snd_conv
    using Cons.IH [of "snd (do_call x c)"] do_call_eventJson [of x c] by simp
qed

lemma SendEvent_error_iff:
  "(\<exists>err c'. SendEvent marshal evt c = Returns (Some err, c')) \<longleftrightarrow> (\<exists>err. marshal evt = Inl err)"
  by (auto simp: SendEvent_def chan_send_def split: sum.splits if_splits)

lemma SendEvent_blocks_iff:
  "SendEvent marshal evt c = Blocks
     \<longleftrightarrow> (\<exists>j. marshal evt = Inr j) \<and> cap (eventJson c) \<le> length (buf (eventJson c))"
  by (auto simp: SendEvent_def chan_send_def split: sum.splits if_splits)

lemma SendEvent_cap:
  "SendEvent marshal evt c = Returns (r, c') \<Longrightarrow> cap (eventJson c') = cap (eventJson c)"
  by (auto simp: SendEvent_def chan_send_def split: sum.splits if_splits)

text \<open>
  Claim C7. \<^verbatim>\<open>SendEvent\<close> returns an error exactly when the encoding fails, and then it
  returns the encoder's error and leaves the client as it was. When the encoding
  succeeds and \<^verbatim>\<open>eventJson\<close> has room, the encoded event is put at the end of \<^verbatim>\<open>eventJson\<close>
  and \<^verbatim>\<open>nil\<close> is returned. The call blocks exactly when the encoding succeeds and
  \<^verbatim>\<open>eventJson\<close> is full. The capacity of \<^verbatim>\<open>eventJson\<close> is 100 on a client from the
  constructor after any lifecycle calls, and \<^verbatim>\<open>SendEvent\<close> does not change it.
\<close>

theorem SendEvent_outcome:
  "((\<exists>err c'. SendEvent marshal evt c = Returns (Some err, c')) \<longleftrightarrow> (\<exists>err. marshal evt = Inl err))
   \<and> (marshal evt = Inl err \<longrightarrow> SendEvent marshal evt c = Returns (Some err, c))
   \<and> (marshal evt = Inr j \<and> length (buf (eventJson c)) < cap (eventJson c) \<longrightarrow>
        SendEvent marshal evt c
          = Returns (None, c\<lparr>eventJson := (eventJson c)\<lparr>buf := buf (eventJson c) @ [j]\<rparr>\<rparr>))
   \<and> (SendEvent marshal evt c = Blocks
        \<longleftrightarrow> (\<exists>j. marshal evt = Inr j) \<and> cap (eventJson c) \<le> length (buf (eventJson c)))
   \<and> (SendEvent marshal evt c = Returns (r, c') \<longrightarrow> cap (eventJson c') = cap (eventJson c))
   \<and> cap (eventJson (snd (run_calls xs NewFakeDockerComposeClient))) = 100"
proof -
  have "cap (eventJson (snd (run_calls xs NewFakeDockerComposeClient))) = 100"
    unfolding run_calls_eventJson by (simp add: NewFakeDockerComposeClient_def)
  moreover have "marshal evt = Inl err \<longrightarrow> SendEvent marshal evt c = Returns (Some err, c)"
    by (simp add: SendEvent_def)
  moreover have "marshal evt = Inr j \<and> length (buf (eventJson c)) < cap (eventJson c) \<longrightarrow>
        SendEvent marshal evt c
          = Returns (None, c\<lparr>eventJson := (eventJson c)\<lparr>buf := buf (eventJson c) @ [j]\<rparr>\<rparr>)"
    by (simp add: SendEvent_def chan_send_def)
  ultimately show ?thesis
    using SendEvent_error_iff [of marshal evt c] SendEvent_blocks_iff [of marshal evt c]
      SendEvent_cap [of marshal evt c r c']
    by blast
qed

theorem SendEvent_outcome_witness:
  "example_marshal None = Inl (Error ''json: unsupported value'')
   \<and> SendEvent example_marshal None idle_client
       = Returns (Some (Error ''json: unsupported value''), idle_client)
   \<and> example_marshal (Some ''start'') = Inr ''{start}''
   \<and> length (buf (eventJson idle_client)) < cap (eventJson idle_client)
   \<and> SendEvent example_marshal (Some ''start'') idle_client
       = Returns (None, idle_client\<lparr>eventJson := \<lparr>cap = 100, buf = [''{start}'']\<rparr>\<rparr>)"
proof -
  have m1: "example_marshal None = Inl (Error ''json: unsupported value'')" by simp
  have m2: "example_marshal (Some ''start'') = Inr ''{start}''" by simp
  have room: "length (buf (eventJson idle_client)) < cap (eventJson idle_client)"
    by (simp add: idle_client_def NewFakeDockerComposeClient_def)
  have q: "eventJson idle_client = \<lparr>cap = 100, buf = []\<rparr>"
    by (simp add: idle_client_def NewFakeDockerComposeClient_def)
  have r1: "SendEvent example_marshal None idle_client
       = Returns (Some (Error ''json: unsupported value''), idle_client)"
    using SendEvent_outcome [of example_marshal None idle_client "Error ''json: unsupported value''"]
      m1 by blast
  have "SendEvent example_marshal (Some ''start'') idle_client
       = Returns (None, idle_client\<lparr>eventJson :=
            (eventJson idle_client)\<lparr>buf := buf (eventJson idle_client) @ [''{start}'']\<rparr>\<rparr>)"
    using SendEvent_outcome [where marshal = example_marshal and evt = "Some ''start''"
        and c = idle_client and j = "''{start}''"] m2 room by blast
  then have r2: "SendEvent example_marshal (Some ''start'') idle_client
       = Returns (None, idle_client\<lparr>eventJson := \<lparr>cap = 100, buf = [''{start}'']\<rparr>\<rparr>)"
    by (simp add: q)
  from m1 m2 room r1 r2 show ?thesis by (simp only: simp_thms)
qed

lemma forward_full: "cap ch \<le> length (buf ch) \<Longrightarrow> forward event ch = Inl (panic_message event)"
  by (simp add: forward_def chan_send_def)

lemma forward_room:
  "length (buf ch) < cap ch \<Longrightarrow> forward event ch = Inr (ch\<lparr>buf := buf ch @ [event]\<rparr>)"
  by (simp add: forward_def chan_send_def)

lemma step_panics_iff:
  "(\<exists>msg. step a b = Inl msg) \<longleftrightarrow>
     a = Loop CaseRecv \<and> status b = Running \<and> buf (ingestion b) \<noteq> []
       \<and> \<not> length (buf (events b)) < cap (events b)"
proof (cases a)
  case (Loop pick)
  then show ?thesis
    by (cases pick) (auto simp: forward_def chan_send_def split: list.splits option.splits)
next
  case Subscriber
  then show ?thesis by (simp split: list.splits)
next
  case (Producer j)
  then show ?thesis by (simp split: option.splits)
qed

lemma step_delivered:
  assumes "step a b = Inr b'" and "delivered b"
  shows "delivered b' \<and> cap (events b') = cap (events b)"
proof (cases a)
  case (Loop pick)
  with assms show ?thesis
    by (cases pick)
      (auto simp: delivered_def forward_def chan_send_def
        split: list.splits option.splits if_splits)
next
  case Subscriber
  with assms show ?thesis by (auto simp: delivered_def split: list.splits)
next
  case (Producer j)
  with assms show ?thesis by (auto simp: delivered_def split: option.splits)
qed

lemma run_delivered:
  "run acts b = Inr b' \<Longrightarrow> delivered b \<Longrightarrow> delivered b' \<and> cap (events b') = cap (events b)"
proof (induction acts arbitrary: b)
  case Nil
  then show ?case by simp
next
  case (Cons a acts)
  from Cons.prems(1) obtain b1 where b1: "step a b = Inr b1" "run acts b1 = Inr b'"
    by (auto split: sum.splits)
  from step_delivered [OF b1(1) Cons.prems(2)] Cons.IH [OF b1(2)] show ?case by simp
qed

lemma never_full_iff: "never_full acts b \<longleftrightarrow> (\<exists>b'. run acts b = Inr b')"
proof (induction acts arbitrary: b)
  case Nil
  show ?case by simp
next
  case (Cons a acts)
  show ?case
  proof (cases "step a b")
    case (Inl msg)
    then have "\<exists>msg. step a b = Inl msg" by blast
    then have full: "a = Loop CaseRecv" "status b = Running" "buf (ingestion b) \<noteq> []"
        "\<not> length (buf (events b)) < cap (events b)"
      using step_panics_iff [of a b] by blast+
    have "\<not> never_full (a # acts) b" using full by auto
    moreover have "run (a # acts) b = Inl msg" using Inl by simp
    ultimately show ?thesis by simp
  next
    case (Inr b1)
    then have "\<not> (\<exists>msg. step a b = Inl msg)" by simp
    then have "\<not> (a = Loop CaseRecv \<and> status b = Running \<and> buf (ingestion b) \<noteq> []
       \<and> \<not> length (buf (events b)) < cap (events b))"
      using step_panics_iff [of a b] by blast
    with Inr Cons.IH [of b1] show ?thesis by auto
  qed
qed

lemma subscribe_delivered: "delivered (subscribe c) \<and> cap (events (subscribe c)) = 10"
  by (simp add: delivered_def subscribe_def StreamEvents_def)

text \<open>
  Claim C8. The channel that \<^verbatim>\<open>StreamEvents\<close> returns has capacity 10. When the running
  goroutine takes an event from \<^verbatim>\<open>eventJson\<close> and the subscriber's channel is full, it
  panics; when the channel has room, the event is put at its end. Over any schedule of
  the goroutine, the subscriber and the producers in which the channel is never full at
  a forward, there is no panic, the events the subscriber has received followed by those
  waiting in its channel are the events taken from \<^verbatim>\<open>eventJson\<close>, in order, and the
  channel holds at most 10 of them. Over any other schedule the run ends in the panic.
\<close>

theorem overflow_is_fatal:
  "StreamEvents c = (\<lparr>cap = 10, buf = []\<rparr>, None)
   \<and> (status b = Running \<and> buf (ingestion b) = event # rest
        \<and> cap (events b) \<le> length (buf (events b)) \<longrightarrow>
          step (Loop CaseRecv) b = Inl (panic_message event))
   \<and> (status b = Running \<and> buf (ingestion b) = event # rest
        \<and> length (buf (events b)) < cap (events b) \<longrightarrow>
          step (Loop CaseRecv) b
            = Inr (b\<lparr>ingestion := (ingestion b)\<lparr>buf := rest\<rparr>,
                     events := (events b)\<lparr>buf := buf (events b) @ [event]\<rparr>,
                     dequeued := dequeued b @ [event]\<rparr>))
   \<and> (never_full acts (subscribe c) \<longrightarrow>
        (\<exists>b'. run acts (subscribe c) = Inr b'
           \<and> dequeued b' = received b' @ buf (events b')
           \<and> length (buf (events b')) \<le> 10 \<and> cap (events b') = 10))
   \<and> (\<not> never_full acts (subscribe c) \<longrightarrow> (\<exists>msg. run acts (subscribe c) = Inl msg))"
proof -
  have "never_full acts (subscribe c) \<longrightarrow>
        (\<exists>b'. run acts (subscribe c) = Inr b'
           \<and> dequeued b' = received b' @ buf (events b')
           \<and> length (buf (events b')) \<le> 10 \<and> cap (events b') = 10)"
  proof
    assume "never_full acts (subscribe c)"
    then obtain b' where b': "run acts (subscribe c) = Inr b'"
      by (auto simp: never_full_iff)
    from run_delivered [OF b'] subscribe_delivered [of c]
    have "delivered b' \<and> cap (events b') = 10" by simp
    with b' show "\<exists>b'. run acts (subscribe c) = Inr b'
           \<and> dequeued b' = received b' @ buf (events b')
           \<and> length (buf (events b')) \<le> 10 \<and> cap (events b') = 10"
      by (auto simp: delivered_def)
  qed
  moreover have "\<not> never_full acts (subscribe c) \<longrightarrow> (\<exists>msg. run acts (subscribe c) = Inl msg)"
    unfolding never_full_iff by (cases "run acts (subscribe c)") auto
  ultimately show ?thesis
    by (simp add: StreamEvents_def forward_full forward_room)
qed

theorem overflow_is_fatal_witness:
  "never_full keeps_up (subscribe idle_client)
   \<and> \<not> isl (run keeps_up (subscribe idle_client))
   \<and> dequeued (projr (run keeps_up (subscribe idle_client)))
       = received (projr (run keeps_up (subscribe idle_client)))
           @ buf (events (projr (run keeps_up (subscribe idle_client))))
   \<and> \<not> never_full falls_behind (subscribe idle_client)
   \<and> run falls_behind (subscribe idle_client) = Inl (panic_message ''e++++++++++'')"
proof -
  have k: "never_full keeps_up (subscribe idle_client)"
    by code_simp
  have f: "\<not> never_full falls_behind (subscribe idle_client)"
    by code_simp
  obtain b' where b': "run keeps_up (subscribe idle_client) = Inr b'"
      "dequeued b' = received b' @ buf (events b')"
    using overflow_is_fatal [where c = idle_client and acts = keeps_up] k by blast
  obtain msg where msg: "run falls_behind (subscribe idle_client) = Inl msg"
    using overflow_is_fatal [where c = idle_client and acts = falls_behind] f by blast
  have "run falls_behind (subscribe idle_client) = Inl (panic_message ''e++++++++++'')"
    by code_simp
  then show ?thesis using k f b' msg by simp
qed

end
